theory Spec2Isabelle
  imports Main
begin

section \<open>Certificates\<close>

text \<open>
  Modelled from the spec: the certificate abstraction \<^verbatim>\<open>x509Certificate\<close> of
  \<^verbatim>\<open>src/x509/cert.ts\<close>, which \<^verbatim>\<open>verify.ts\<close> imports and only queries. A certificate
  exposes \<^verbatim>\<open>subject\<close> and \<^verbatim>\<open>issuer\<close> (buffers compared bytewise), \<^verbatim>\<open>isCA\<close>, the optional
  extensions \<^verbatim>\<open>extAuthorityKeyID\<close> and \<^verbatim>\<open>extSubjectKeyID\<close>, \<^verbatim>\<open>equals\<close> (structural
  identity), \<^verbatim>\<open>validForDate\<close> and \<^verbatim>\<open>verify\<close>.

  A \<^verbatim>\<open>Buffer\<close> is a byte string; a HOL \<open>char\<close> is a byte.
\<close>

type_synonym Buffer = string
type_synonym Date = int

text \<open>
  The structural content of a certificate. \<open>extAuthorityKeyID\<close> is \<open>None\<close> when the
  extension is absent, \<open>Some None\<close> when it is present without a \<^verbatim>\<open>keyIdentifier\<close>
  (the variable that receives it in \<^verbatim>\<open>findIssuer\<close> has type \<^verbatim>\<open>Buffer | undefined\<close>) and
  \<open>Some (Some k)\<close> otherwise; \<open>extSubjectKeyID\<close> is the \<^verbatim>\<open>keyIdentifier\<close> of the subject
  key extension when the extension is present. \<open>encoding\<close> stands for the rest of the
  encoded certificate (serial number, key, signature).
\<close>

record certBody =
  subject :: Buffer
  issuer :: Buffer
  isCA :: bool
  extAuthorityKeyID :: "Buffer option option"
  extSubjectKeyID :: "Buffer option"
  encoding :: Buffer

text \<open>
  A JavaScript object: the content together with the identity of the object. HOL
  equality on \<open>x509Certificate\<close> is \<^verbatim>\<open>===\<close> (what \<^verbatim>\<open>Array.prototype.includes\<close> compares
  with); two parses of the same certificate differ in \<open>objId\<close> only.
\<close>

record x509Certificate = certBody +
  objId :: nat

definition equals :: "x509Certificate \<Rightarrow> x509Certificate \<Rightarrow> bool" where
  "equals a b \<longleftrightarrow> certBody.truncate a = certBody.truncate b"

text \<open>
  The outcome of \<^verbatim>\<open>certificate.verify(issuer?)\<close>: a boolean, or an exception. The
  signature check itself is a parameter of the model, a function of the content of the
  certificate and of the issuer (\<open>None\<close> when \<^verbatim>\<open>verify()\<close> is called without one).
  \<^verbatim>\<open>validForDate\<close> is a parameter in the same way.
\<close>

datatype verdict = Returns bool | Throws

type_synonym sigcheck = "certBody \<Rightarrow> certBody option \<Rightarrow> verdict"
type_synonym datecheck = "certBody \<Rightarrow> Date \<Rightarrow> bool"

section \<open>Errors\<close>

text \<open>
  \<open>VerificationError\<close> carries the message of the source. \<open>SignatureException\<close> is an
  exception of \<^verbatim>\<open>x509Certificate.verify\<close> that nothing catches. \<open>TypeError\<close> is the
  property access on \<^verbatim>\<open>undefined\<close> that \<^verbatim>\<open>sort\<close> runs into on an empty pool.
\<close>

datatype error = VerificationError string | SignatureException | TypeError

section \<open>The verifier\<close>

record VerifyCertificateChainOptions =
  opts_trustedCerts :: "x509Certificate list"
  opts_certs :: "x509Certificate list"
  opts_validAt :: "Date option"

record CertificateChainVerifier =
  certs :: "x509Certificate list"
  trustedCerts :: "x509Certificate list"
  localCerts :: "x509Certificate list"
  validAt :: Date

subsection \<open>dedupeCertificates\<close>

text \<open>\<^verbatim>\<open>certs.splice(j, 1)\<close>: the list without its element at index \<open>j\<close>.\<close>

definition splice1 :: "nat \<Rightarrow> 'a list \<Rightarrow> 'a list" where
  "splice1 j xs = take j xs @ drop (Suc j) xs"

text \<open>
  The inner loop, entered at index \<open>j\<close>. After a splice the source decrements \<open>j\<close> and
  the loop header increments it again, so the next iteration reads the same index.
\<close>

function dedupeInner :: "nat \<Rightarrow> nat \<Rightarrow> x509Certificate list \<Rightarrow> x509Certificate list" where
  "dedupeInner i j cs =
     (if j < length cs then
        (if equals (cs ! i) (cs ! j) then dedupeInner i j (splice1 j cs)
         else dedupeInner i (j + 1) cs)
      else cs)"
  by pat_completeness auto
termination
  by (relation "measure (\<lambda>(i, j, cs). length cs - j)") (auto simp: splice1_def)

declare dedupeInner.simps [simp del]

function dedupeOuter :: "nat \<Rightarrow> x509Certificate list \<Rightarrow> x509Certificate list" where
  "dedupeOuter i cs =
     (if i < length cs then dedupeOuter (i + 1) (dedupeInner i (i + 1) cs) else cs)"
  by pat_completeness auto
termination
proof (relation "measure (\<lambda>(i, cs). length cs - i)")
  show "wf (measure (\<lambda>(i, cs). length cs - i))" by simp
next
  fix i :: nat and cs :: "x509Certificate list"
  assume lt: "i < length cs"
  have len: "length (dedupeInner k j ds) \<le> length ds" for k j ds
  proof (induction k j ds rule: dedupeInner.induct)
    case (1 k j ds)
    show ?case
    proof (cases "j < length ds")
      case False
      then show ?thesis by (subst dedupeInner.simps) simp
    next
      case lt: True
      show ?thesis
      proof (cases "equals (ds ! k) (ds ! j)")
        case True
        have "length (dedupeInner k j (splice1 j ds)) \<le> length (splice1 j ds)"
          using "1.IH"(1)[OF lt True] .
        also have "\<dots> \<le> length ds" by (simp add: splice1_def)
        finally show ?thesis using lt True by (subst dedupeInner.simps) simp
      next
        case False
        from "1.IH"(2)[OF lt False]
        show ?thesis using lt False by (subst dedupeInner.simps) simp
      qed
    qed
  qed
  from len[of i "i + 1" cs] lt
  show "((i + 1, dedupeInner i (i + 1) cs), (i, cs)) \<in> measure (\<lambda>(i, cs). length cs - i)"
    by simp
qed

declare dedupeOuter.simps [simp del]

definition dedupeCertificates :: "x509Certificate list \<Rightarrow> x509Certificate list" where
  "dedupeCertificates cs = dedupeOuter 0 cs"

subsection \<open>The constructor\<close>

text \<open>\<open>now\<close> is the value of \<^verbatim>\<open>new Date()\<close> at the call.\<close>

definition newCertificateChainVerifier ::
  "Date \<Rightarrow> VerifyCertificateChainOptions \<Rightarrow> CertificateChainVerifier" where
  "newCertificateChainVerifier now opts =
     \<lparr> certs = opts_certs opts,
       trustedCerts = opts_trustedCerts opts,
       localCerts = dedupeCertificates (opts_trustedCerts opts @ opts_certs opts),
       validAt = (case opts_validAt opts of Some d \<Rightarrow> d | None \<Rightarrow> now) \<rparr>"

subsection \<open>findIssuer\<close>

text \<open>
  One iteration of the \<^verbatim>\<open>forEach\<close> over the pool: with a key identifier at hand, a
  possible issuer that has a subject key identifier is decided by the identifiers alone
  (the \<^verbatim>\<open>return\<close>); every other possible issuer is decided by the names.
\<close>

definition considerIssuer ::
  "Buffer option \<Rightarrow> x509Certificate \<Rightarrow> x509Certificate list \<Rightarrow> x509Certificate
     \<Rightarrow> x509Certificate list" where
  "considerIssuer keyIdentifier certificate issuers possibleIssuer =
     (case (keyIdentifier, extSubjectKeyID possibleIssuer) of
        (Some k, Some s) \<Rightarrow> (if s = k then issuers @ [possibleIssuer] else issuers)
      | _ \<Rightarrow>
          (if subject possibleIssuer = issuer certificate then issuers @ [possibleIssuer]
           else issuers))"

text \<open>The filter's callback: an exception of \<^verbatim>\<open>verify\<close> is caught and counts as false.\<close>

definition verifiesWith :: "sigcheck \<Rightarrow> x509Certificate \<Rightarrow> x509Certificate \<Rightarrow> bool" where
  "verifiesWith vfy certificate iss =
     (case vfy (certBody.truncate certificate) (Some (certBody.truncate iss)) of
        Returns b \<Rightarrow> b
      | Throws \<Rightarrow> False)"

definition matchIssuers ::
  "sigcheck \<Rightarrow> CertificateChainVerifier \<Rightarrow> x509Certificate \<Rightarrow> x509Certificate list" where
  "matchIssuers vfy this certificate =
     (let keyIdentifier =
            (case extAuthorityKeyID certificate of None \<Rightarrow> None | Some ext \<Rightarrow> ext);
          issuers = foldl (considerIssuer keyIdentifier certificate) [] (localCerts this)
      in filter (verifiesWith vfy certificate) issuers)"

text \<open>
  The self-signed test comes first and calls \<^verbatim>\<open>certificate.verify()\<close> outside any
  \<^verbatim>\<open>try\<close>: an exception there leaves \<^verbatim>\<open>findIssuer\<close>.
\<close>

definition findIssuer ::
  "sigcheck \<Rightarrow> CertificateChainVerifier \<Rightarrow> x509Certificate \<Rightarrow> error + x509Certificate list"
  where
  "findIssuer vfy this certificate =
     (if subject certificate = issuer certificate then
        (case vfy (certBody.truncate certificate) None of
           Throws \<Rightarrow> Inl SignatureException
         | Returns True \<Rightarrow> Inr [certificate]
         | Returns False \<Rightarrow> Inr (matchIssuers vfy this certificate))
      else Inr (matchIssuers vfy this certificate))"

subsection \<open>buildPaths\<close>

text \<open>
  The recursion of \<^verbatim>\<open>buildPaths\<close> follows issuers through the pool and need not end
  (two certificates that issue each other). The first argument after the verifier bounds
  the depth of the recursion; \<open>None\<close> is a search that did not finish within it.
  \<open>buildPathsLoop\<close> is the \<^verbatim>\<open>for\<close> loop over the issuers, with \<^verbatim>\<open>paths\<close> as accumulator.
\<close>

fun buildPaths ::
    "sigcheck \<Rightarrow> CertificateChainVerifier \<Rightarrow> nat \<Rightarrow> x509Certificate
       \<Rightarrow> (error + x509Certificate list list) option"
  and buildPathsLoop ::
    "sigcheck \<Rightarrow> CertificateChainVerifier \<Rightarrow> nat \<Rightarrow> x509Certificate
       \<Rightarrow> x509Certificate list \<Rightarrow> x509Certificate list list
       \<Rightarrow> (error + x509Certificate list list) option"
  where
  "buildPaths vfy this 0 certificate = None"
| "buildPaths vfy this (Suc n) certificate =
     (case findIssuer vfy this certificate of
        Inl e \<Rightarrow> Some (Inl e)
      | Inr issuers \<Rightarrow>
          (if length issuers = 0 then
             Some (Inl (VerificationError ''No valid certificate path found''))
           else buildPathsLoop vfy this n certificate issuers []))"
| "buildPathsLoop vfy this n certificate [] paths = Some (Inr paths)"
| "buildPathsLoop vfy this n certificate (iss # rest) paths =
     (if equals iss certificate then
        buildPathsLoop vfy this n certificate rest (paths @ [[certificate]])
      else
        (case buildPaths vfy this n iss of
           None \<Rightarrow> None
         | Some (Inl e) \<Rightarrow> Some (Inl e)
         | Some (Inr subPaths) \<Rightarrow>
             buildPathsLoop vfy this n certificate rest
               (paths @ map (\<lambda>subPath. iss # subPath) subPaths)))"

subsection \<open>sort\<close>

text \<open>
  \<open>shorter\<close> is the callback of \<^verbatim>\<open>paths.reduce\<close>, which runs without an initial value on
  an array that the test before it has found non-empty. On an empty pool the leaf is
  \<^verbatim>\<open>undefined\<close> and the first property access of \<^verbatim>\<open>findIssuer\<close> raises.
\<close>

definition shorter :: "'a list \<Rightarrow> 'a list \<Rightarrow> 'a list" where
  "shorter prev cur = (if length prev < length cur then prev else cur)"

definition containsTrusted :: "CertificateChainVerifier \<Rightarrow> x509Certificate list \<Rightarrow> bool" where
  "containsTrusted this path = list_ex (\<lambda>cert. cert \<in> set (trustedCerts this)) path"

definition sort_certs ::
  "sigcheck \<Rightarrow> CertificateChainVerifier \<Rightarrow> nat \<Rightarrow> (error + x509Certificate list) option"
  where
  "sort_certs vfy this fuel =
     (if length (localCerts this) = 0 then Some (Inl TypeError)
      else
        (let leafCert = localCerts this ! (length (localCerts this) - 1) in
           case buildPaths vfy this fuel leafCert of
             None \<Rightarrow> None
           | Some (Inl e) \<Rightarrow> Some (Inl e)
           | Some (Inr allPaths) \<Rightarrow>
               (case filter (containsTrusted this) allPaths of
                  [] \<Rightarrow> Some (Inl (VerificationError ''No trusted certificate path found''))
                | p # ps \<Rightarrow> Some (Inr (leafCert # foldl shorter p ps)))))"

subsection \<open>checkPath\<close>

text \<open>The name chaining loop, from \<^verbatim>\<open>i = path.length - 2\<close> down to \<open>0\<close>.\<close>

function nameChaining :: "x509Certificate list \<Rightarrow> int \<Rightarrow> error + unit" where
  "nameChaining path i =
     (if i \<ge> 0 then
        (if issuer (path ! nat i) \<noteq> subject (path ! nat (i + 1)) then
           Inl (VerificationError ''Incorrect certificate name chaining'')
         else nameChaining path (i - 1))
      else Inr ())"
  by pat_completeness auto
termination
  by (relation "measure (\<lambda>(path, i). nat (i + 1))") auto

declare nameChaining.simps [simp del]

definition checkPath ::
  "datecheck \<Rightarrow> CertificateChainVerifier \<Rightarrow> x509Certificate list \<Rightarrow> error + unit" where
  "checkPath vfd this path =
     (if length path < 2 then
        Inl (VerificationError ''Certificate chain must contain at least two certificates'')
      else if \<not> list_all (\<lambda>cert. vfd (certBody.truncate cert) (validAt this)) path then
        Inl (VerificationError ''Certificate is not valid or expired at the specified date'')
      else if \<not> list_all (\<lambda>cert. isCA cert) (drop 1 path) then
        Inl (VerificationError ''Intermediate certificate is not a CA'')
      else nameChaining path (int (length path) - 2))"

subsection \<open>verify and verifyCertificateChain\<close>

definition verify ::
  "sigcheck \<Rightarrow> datecheck \<Rightarrow> CertificateChainVerifier \<Rightarrow> nat
     \<Rightarrow> (error + x509Certificate list) option" where
  "verify vfy vfd this fuel =
     (if length (certs this) = 0 then
        Some (Inl (VerificationError ''No certificates provided''))
      else
        (case sort_certs vfy this fuel of
           None \<Rightarrow> None
         | Some (Inl e) \<Rightarrow> Some (Inl e)
         | Some (Inr certificatePath) \<Rightarrow>
             (case checkPath vfd this certificatePath of
                Inl e \<Rightarrow> Some (Inl e)
              | Inr _ \<Rightarrow> Some (Inr certificatePath))))"

definition verifyCertificateChain ::
  "sigcheck \<Rightarrow> datecheck \<Rightarrow> Date \<Rightarrow> nat \<Rightarrow> VerifyCertificateChainOptions
     \<Rightarrow> (error + x509Certificate list) option" where
  "verifyCertificateChain vfy vfd now fuel opts =
     verify vfy vfd (newCertificateChainVerifier now opts) fuel"

section \<open>Auxiliary definitions\<close>

text \<open>
  What \<open>dedupeCertificates\<close> computes, by structural recursion: every certificate is kept
  unless an earlier one equals it.
\<close>

fun keepFirst :: "x509Certificate list \<Rightarrow> x509Certificate list" where
  "keepFirst [] = []"
| "keepFirst (c # cs) = c # keepFirst (filter (\<lambda>d. \<not> equals c d) cs)"

text \<open>The test of \<open>considerIssuer\<close> as a predicate on the possible issuer.\<close>

definition issuerMatch :: "Buffer option \<Rightarrow> x509Certificate \<Rightarrow> x509Certificate \<Rightarrow> bool" where
  "issuerMatch keyIdentifier certificate possibleIssuer =
     (case (keyIdentifier, extSubjectKeyID possibleIssuer) of
        (Some k, Some s) \<Rightarrow> s = k
      | _ \<Rightarrow> subject possibleIssuer = issuer certificate)"

text \<open>The messages of the four rules of \<open>checkPath\<close>.\<close>

definition ChainTooShort :: error where
  "ChainTooShort = VerificationError ''Certificate chain must contain at least two certificates''"

definition ExpiredOrNotYetValid :: error where
  "ExpiredOrNotYetValid =
     VerificationError ''Certificate is not valid or expired at the specified date''"

definition NotCA :: error where
  "NotCA = VerificationError ''Intermediate certificate is not a CA''"

definition NameChainMismatch :: error where
  "NameChainMismatch = VerificationError ''Incorrect certificate name chaining''"

subsection \<open>Example certificates\<close>

text \<open>
  A certificate without key identifier extensions, and two signature checks for the
  examples: \<open>sigByName\<close> accepts a signature when the issuer name of the certificate is
  the subject name of the signing certificate; \<open>sigByNameOrThrow\<close> does the same but
  raises when the signing certificate holds a key it cannot load (written as the
  encoding \<open>''bad key''\<close>).
\<close>

definition mkCert :: "nat \<Rightarrow> Buffer \<Rightarrow> Buffer \<Rightarrow> bool \<Rightarrow> x509Certificate" where
  "mkCert n s i ca =
     \<lparr> subject = s, issuer = i, isCA = ca, extAuthorityKeyID = None,
       extSubjectKeyID = None, encoding = s, objId = n \<rparr>"

definition signer :: "certBody \<Rightarrow> certBody option \<Rightarrow> certBody" where
  "signer c i = (case i of None \<Rightarrow> c | Some k \<Rightarrow> k)"

definition sigByName :: sigcheck where
  "sigByName c i = Returns (issuer c = subject (signer c i))"

definition sigByNameOrThrow :: sigcheck where
  "sigByNameOrThrow c i =
     (if encoding (signer c i) = ''bad key'' then Throws
      else Returns (issuer c = subject (signer c i)))"

definition alwaysValid :: datecheck where
  "alwaysValid c d = True"

definition validUntil2030 :: datecheck where
  "validUntil2030 c d = (d \<le> 2030)"

definition rootCert :: x509Certificate where
  "rootCert = mkCert 1 ''root'' ''root'' True"

definition rootCopy :: x509Certificate where
  "rootCopy = mkCert 2 ''root'' ''root'' True"

definition intCert :: x509Certificate where
  "intCert = mkCert 3 ''int'' ''root'' True"

definition leafCert :: x509Certificate where
  "leafCert = mkCert 4 ''leaf'' ''int'' False"

text \<open>
  Certificates with key identifiers (\<open>akiLeaf\<close> names \<open>''key-1''\<close> as the key of its
  issuer), three certificate authorities of the same name, a cross-signed one, and a
  self-issued certificate whose key cannot be loaded.
\<close>

definition akiLeaf :: x509Certificate where
  "akiLeaf = (mkCert 5 ''leaf'' ''ca'' False)\<lparr> extAuthorityKeyID := Some (Some ''key-1'') \<rparr>"

definition caNoSki :: x509Certificate where
  "caNoSki = mkCert 6 ''ca'' ''ca'' True"

definition caSki :: x509Certificate where
  "caSki = (mkCert 7 ''ca'' ''ca'' True)\<lparr> extSubjectKeyID := Some ''key-1'' \<rparr>"

definition caOtherSki :: x509Certificate where
  "caOtherSki = (mkCert 8 ''ca'' ''ca'' True)\<lparr> extSubjectKeyID := Some ''key-2'' \<rparr>"

definition caCross :: x509Certificate where
  "caCross = mkCert 9 ''ca'' ''root'' True"

definition caLeaf :: x509Certificate where
  "caLeaf = mkCert 10 ''leaf'' ''ca'' False"

definition intNonCA :: x509Certificate where
  "intNonCA = mkCert 11 ''int'' ''root'' False"

definition badRoot :: x509Certificate where
  "badRoot = (mkCert 12 ''root'' ''root'' True)\<lparr> encoding := ''bad key'' \<rparr>"

section \<open>Deduplication\<close>

lemma dedupeInner_filter:
  "i < j \<Longrightarrow> j \<le> length cs \<Longrightarrow>
   dedupeInner i j cs = take j cs @ filter (\<lambda>d. \<not> equals (cs ! i) d) (drop j cs)"
proof (induction i j cs rule: dedupeInner.induct)
  case (1 i j cs)
  show ?case
  proof (cases "j < length cs")
    case False
    with "1.prems" show ?thesis by (subst dedupeInner.simps) simp
  next
    case lt: True
    have dj: "drop j cs = cs ! j # drop (Suc j) cs"
      using lt by (simp add: Cons_nth_drop_Suc)
    show ?thesis
    proof (cases "equals (cs ! i) (cs ! j)")
      case True
      have a: "j \<le> length (splice1 j cs)" using lt by (simp add: splice1_def)
      have b: "splice1 j cs ! i = cs ! i"
        using "1.prems"(1) lt by (simp add: splice1_def nth_append)
      have c: "take j (splice1 j cs) = take j cs" using lt by (simp add: splice1_def)
      have d: "drop j (splice1 j cs) = drop (Suc j) cs" using lt by (simp add: splice1_def)
      have "dedupeInner i j cs = dedupeInner i j (splice1 j cs)"
        using lt True by (subst dedupeInner.simps) simp
      also have "\<dots> = take j cs @ filter (\<lambda>d. \<not> equals (cs ! i) d) (drop (Suc j) cs)"
        using "1.IH"(1)[OF lt True "1.prems"(1) a] by (simp add: b c d)
      finally show ?thesis using True by (simp add: dj)
    next
      case False
      have "dedupeInner i j cs = dedupeInner i (j + 1) cs"
        using lt False by (subst dedupeInner.simps) simp
      also have "\<dots> = take (j + 1) cs @ filter (\<lambda>d. \<not> equals (cs ! i) d) (drop (j + 1) cs)"
        using "1.IH"(2)[OF lt False] "1.prems"(1) lt by simp
      finally show ?thesis using False lt by (simp add: dj take_Suc_conv_app_nth)
    qed
  qed
qed

lemma dedupeOuter_keepFirst:
  "i \<le> length cs \<Longrightarrow> dedupeOuter i cs = take i cs @ keepFirst (drop i cs)"
proof (induction i cs rule: dedupeOuter.induct)
  case (1 i cs)
  show ?case
  proof (cases "i < length cs")
    case False
    with "1.prems" show ?thesis by (subst dedupeOuter.simps) simp
  next
    case lt: True
    define cs' where "cs' = dedupeInner i (i + 1) cs"
    have di: "drop i cs = cs ! i # drop (Suc i) cs"
      using lt by (simp add: Cons_nth_drop_Suc)
    have cs': "cs' = take (Suc i) cs @ filter (\<lambda>d. \<not> equals (cs ! i) d) (drop (Suc i) cs)"
      unfolding cs'_def using dedupeInner_filter[of i "i + 1" cs] lt by simp
    have len: "i + 1 \<le> length cs'" using lt by (simp add: cs')
    have "dedupeOuter i cs = dedupeOuter (i + 1) cs'"
      using lt by (subst dedupeOuter.simps) (simp add: cs'_def)
    also have "\<dots> = take (i + 1) cs' @ keepFirst (drop (i + 1) cs')"
      using "1.IH"[OF lt] len by (simp add: cs'_def)
    also have "\<dots> =
        take (Suc i) cs @ keepFirst (filter (\<lambda>d. \<not> equals (cs ! i) d) (drop (Suc i) cs))"
      using lt by (simp add: cs')
    finally show ?thesis using lt by (simp add: di take_Suc_conv_app_nth)
  qed
qed

lemma dedupeCertificates_keepFirst: "dedupeCertificates cs = keepFirst cs"
  by (simp add: dedupeCertificates_def dedupeOuter_keepFirst)

lemma equals_refl: "equals a a"
  by (simp add: equals_def)

lemma equals_sym: "equals a b \<Longrightarrow> equals b a"
  by (simp add: equals_def)

lemma equals_trans: "equals a b \<Longrightarrow> equals b c \<Longrightarrow> equals a c"
  by (simp add: equals_def)

text \<open>Equal certificates agree on every field.\<close>

lemma truncate_fields:
  "subject (certBody.truncate c) = subject c"
  "issuer (certBody.truncate c) = issuer c"
  "isCA (certBody.truncate c) = isCA c"
  by (simp_all add: certBody.truncate_def)

lemma equals_fields:
  assumes "equals a b"
  shows "subject a = subject b" "issuer a = issuer b" "isCA a = isCA b"
proof -
  from assms have t: "certBody.truncate a = certBody.truncate b" by (simp add: equals_def)
  show "subject a = subject b" using arg_cong[OF t, of subject] by (simp add: truncate_fields)
  show "issuer a = issuer b" using arg_cong[OF t, of issuer] by (simp add: truncate_fields)
  show "isCA a = isCA b" using arg_cong[OF t, of isCA] by (simp add: truncate_fields)
qed

lemma set_keepFirst: "set (keepFirst cs) \<subseteq> set cs"
proof (induction cs rule: keepFirst.induct)
  case 1
  show ?case by simp
next
  case (2 c cs)
  then show ?case by auto
qed

lemma keepFirst_Nil_iff: "keepFirst cs = [] \<longleftrightarrow> cs = []"
  by (cases cs) simp_all

text \<open>Every certificate of the input has an equal in the result.\<close>

lemma keepFirst_represents: "c \<in> set cs \<Longrightarrow> \<exists>r \<in> set (keepFirst cs). equals r c"
proof (induction cs rule: keepFirst.induct)
  case 1
  then show ?case by simp
next
  case (2 d cs)
  show ?case
  proof (cases "equals d c")
    case True
    then show ?thesis by auto
  next
    case False
    with "2.prems" have "c \<in> set (filter (\<lambda>x. \<not> equals d x) cs)"
      by (auto simp: equals_refl)
    from "2.IH"[OF this] show ?thesis by auto
  qed
qed

text \<open>A certificate that equals an earlier one leaves no trace in the result.\<close>

lemma keepFirst_drop_duplicate:
  "\<exists>t \<in> set pre. equals t d \<Longrightarrow> keepFirst (pre @ d # post) = keepFirst (pre @ post)"
proof (induction "length pre" arbitrary: pre post rule: less_induct)
  case less
  from less.prems obtain p pre' where pre: "pre = p # pre'"
    by (cases pre) auto
  let ?keep = "\<lambda>x. \<not> equals p x"
  show ?case
  proof (cases "equals p d")
    case True
    then show ?thesis by (simp add: pre)
  next
    case False
    from less.prems obtain t where t: "t \<in> set pre" "equals t d" by blast
    have "t \<noteq> p" using t(2) False by auto
    with t(1) have tin: "t \<in> set pre'" by (simp add: pre)
    have "\<not> equals p t" using False t(2) equals_trans by blast
    with tin have ex: "\<exists>t \<in> set (filter ?keep pre'). equals t d"
      using t(2) by auto
    have len: "length (filter ?keep pre') < length pre"
      by (simp add: pre le_imp_less_Suc)
    have "keepFirst (filter ?keep pre' @ d # filter ?keep post)
          = keepFirst (filter ?keep pre' @ filter ?keep post)"
      by (rule less.hyps[OF len ex])
    then show ?thesis using False by (simp add: pre)
  qed
qed

section \<open>Issuer discovery and path building\<close>

lemma foldl_considerIssuer:
  "foldl (considerIssuer k c) acc pool = acc @ filter (issuerMatch k c) pool"
  by (induction pool arbitrary: acc)
     (simp_all add: considerIssuer_def issuerMatch_def split: option.splits)

lemma matchIssuers_filter:
  "matchIssuers vfy this c =
     filter (verifiesWith vfy c)
       (filter (issuerMatch (case extAuthorityKeyID c of None \<Rightarrow> None | Some ext \<Rightarrow> ext) c)
          (localCerts this))"
  by (simp add: matchIssuers_def Let_def foldl_considerIssuer)

lemma set_matchIssuers: "set (matchIssuers vfy this c) \<subseteq> set (localCerts this)"
  by (auto simp: matchIssuers_filter)

lemma findIssuer_subset:
  "findIssuer vfy this c = Inr iss \<Longrightarrow> set iss \<subseteq> insert c (set (localCerts this))"
  using set_matchIssuers[of vfy this c]
  by (auto simp: findIssuer_def split: if_splits verdict.splits bool.splits)

lemma buildPaths_in_pool:
  "c \<in> set (localCerts this) \<Longrightarrow> buildPaths vfy this n c = Some (Inr paths) \<Longrightarrow>
     \<forall>p \<in> set paths. p \<noteq> [] \<and> set p \<subseteq> set (localCerts this)"
  and buildPathsLoop_in_pool:
  "c \<in> set (localCerts this) \<Longrightarrow> set iss \<subseteq> set (localCerts this) \<Longrightarrow>
     \<forall>p \<in> set acc. p \<noteq> [] \<and> set p \<subseteq> set (localCerts this) \<Longrightarrow>
     buildPathsLoop vfy this n c iss acc = Some (Inr paths) \<Longrightarrow>
     \<forall>p \<in> set paths. p \<noteq> [] \<and> set p \<subseteq> set (localCerts this)"
proof (induction vfy this n c and vfy this n c iss acc arbitrary: paths and paths
       rule: buildPaths_buildPathsLoop.induct)
  case (1 vfy this certificate)
  then show ?case by simp
next
  case (2 vfy this n certificate)
  from "2.prems"(2) obtain issuers where fi: "findIssuer vfy this certificate = Inr issuers"
    and ne: "length issuers \<noteq> 0"
    and loop: "buildPathsLoop vfy this n certificate issuers [] = Some (Inr paths)"
    by (auto split: sum.splits if_splits)
  have sub: "set issuers \<subseteq> set (localCerts this)"
    using findIssuer_subset[OF fi] "2.prems"(1) by auto
  show ?case
    by (rule "2.IH"[OF fi ne "2.prems"(1) sub _ loop]) simp
next
  case (3 vfy this n certificate paths')
  then show ?case by simp
next
  case (4 vfy this n certificate iss rest acc)
  have issin: "iss \<in> set (localCerts this)" and restsub: "set rest \<subseteq> set (localCerts this)"
    using "4.prems"(2) by auto
  show ?case
  proof (cases "equals iss certificate")
    case True
    have loop: "buildPathsLoop vfy this n certificate rest (acc @ [[certificate]]) = Some (Inr paths)"
      using "4.prems"(4) True by simp
    have good: "\<forall>p \<in> set (acc @ [[certificate]]). p \<noteq> [] \<and> set p \<subseteq> set (localCerts this)"
      using "4.prems"(1,3) by auto
    show ?thesis by (rule "4.IH"(1)[OF True "4.prems"(1) restsub good loop])
  next
    case False
    from "4.prems"(4) False obtain subPaths where
      sp: "buildPaths vfy this n iss = Some (Inr subPaths)"
      and loop: "buildPathsLoop vfy this n certificate rest
                   (acc @ map (\<lambda>subPath. iss # subPath) subPaths) = Some (Inr paths)"
      by (auto split: option.splits sum.splits)
    have subgood: "\<forall>p \<in> set subPaths. p \<noteq> [] \<and> set p \<subseteq> set (localCerts this)"
      by (rule "4.IH"(2)[OF False issin sp])
    have good: "\<forall>p \<in> set (acc @ map (\<lambda>subPath. iss # subPath) subPaths).
                  p \<noteq> [] \<and> set p \<subseteq> set (localCerts this)"
      using "4.prems"(3) subgood issin by fastforce
    show ?thesis
      by (rule "4.IH"(3)[OF False sp refl "4.prems"(1) restsub good loop])
  qed
qed


lemma buildPaths_errors:
  "buildPaths vfy this n c = Some (Inl e) \<Longrightarrow>
     e = SignatureException \<or> e = VerificationError ''No valid certificate path found''"
  and buildPathsLoop_errors:
  "buildPathsLoop vfy this n c iss acc = Some (Inl e) \<Longrightarrow>
     e = SignatureException \<or> e = VerificationError ''No valid certificate path found''"
proof (induction vfy this n c and vfy this n c iss acc
       rule: buildPaths_buildPathsLoop.induct)
  case (1 vfy this certificate)
  then show ?case by simp
next
  case (2 vfy this n certificate)
  show ?case
  proof (cases "findIssuer vfy this certificate")
    case (Inl e')
    with "2.prems" have "e = e'" by simp
    moreover have "e' = SignatureException"
      using Inl by (auto simp: findIssuer_def split: if_splits verdict.splits bool.splits)
    ultimately show ?thesis by simp
  next
    case (Inr issuers)
    show ?thesis
    proof (cases "length issuers = 0")
      case True
      with Inr "2.prems" show ?thesis by simp
    next
      case False
      with Inr "2.prems" have "buildPathsLoop vfy this n certificate issuers [] = Some (Inl e)"
        by simp
      from "2.IH"[OF Inr False this] show ?thesis .
    qed
  qed
next
  case (3 vfy this n certificate paths)
  then show ?case by simp
next
  case (4 vfy this n certificate iss rest acc)
  show ?case
  proof (cases "equals iss certificate")
    case True
    with "4.prems" "4.IH"(1) show ?thesis by simp
  next
    case False
    show ?thesis
    proof (cases "buildPaths vfy this n iss")
      case None
      with False "4.prems" show ?thesis by simp
    next
      case (Some r)
      show ?thesis
      proof (cases r)
        case (Inl e')
        with Some False "4.prems" have "e = e'" by simp
        with "4.IH"(2)[OF False] Some Inl show ?thesis by simp
      next
        case (Inr subPaths)
        with Some False "4.prems"
        have "buildPathsLoop vfy this n certificate rest
                (acc @ map (\<lambda>subPath. iss # subPath) subPaths) = Some (Inl e)"
          by simp
        from "4.IH"(3)[OF False _ refl this] Some Inr show ?thesis by simp
      qed
    qed
  qed
qed

lemma foldl_shorter_mem: "foldl shorter p ps \<in> set (p # ps)"
proof (induction ps arbitrary: p)
  case Nil
  show ?case by simp
next
  case (Cons q ps)
  from Cons.IH[of "shorter p q"] show ?case by (auto simp: shorter_def split: if_splits)
qed

lemma sort_certs_leaf:
  "localCerts this \<noteq> [] \<Longrightarrow>
     sort_certs vfy this fuel =
       (case buildPaths vfy this fuel (last (localCerts this)) of
          None \<Rightarrow> None
        | Some (Inl e) \<Rightarrow> Some (Inl e)
        | Some (Inr allPaths) \<Rightarrow>
            (case filter (containsTrusted this) allPaths of
               [] \<Rightarrow> Some (Inl (VerificationError ''No trusted certificate path found''))
             | p # ps \<Rightarrow> Some (Inr (last (localCerts this) # foldl shorter p ps))))"
proof -
  assume ne: "localCerts this \<noteq> []"
  then have l: "localCerts this ! (length (localCerts this) - 1) = last (localCerts this)"
    by (simp add: last_conv_nth)
  show ?thesis unfolding sort_certs_def Let_def l using ne by simp
qed

lemma sort_certs_Inr:
  assumes "sort_certs vfy this fuel = Some (Inr chain)"
  shows "\<exists>allPaths p ps. localCerts this \<noteq> []
           \<and> buildPaths vfy this fuel (last (localCerts this)) = Some (Inr allPaths)
           \<and> filter (containsTrusted this) allPaths = p # ps
           \<and> chain = last (localCerts this) # foldl shorter p ps"
proof (cases "localCerts this = []")
  case True
  with assms show ?thesis by (simp add: sort_certs_def)
next
  case False
  with assms show ?thesis
    by (auto simp: sort_certs_leaf split: option.splits sum.splits list.splits)
qed

lemma sort_certs_errors:
  assumes "sort_certs vfy this fuel = Some (Inl e)" and "localCerts this \<noteq> []"
  shows "e = SignatureException \<or> e = VerificationError ''No valid certificate path found''
         \<or> e = VerificationError ''No trusted certificate path found''"
proof (cases "buildPaths vfy this fuel (last (localCerts this))")
  case None
  with assms show ?thesis by (simp add: sort_certs_leaf)
next
  case (Some r)
  show ?thesis
  proof (cases r)
    case (Inl e')
    with Some assms have "e = e'" by (simp add: sort_certs_leaf)
    with buildPaths_errors[of vfy this fuel "last (localCerts this)" e'] Some Inl
    show ?thesis by blast
  next
    case (Inr allPaths)
    with Some assms show ?thesis
      by (auto simp: sort_certs_leaf split: list.splits)
  qed
qed

lemma verify_Inr:
  "verify vfy vfd this fuel = Some (Inr chain) \<Longrightarrow>
     certs this \<noteq> [] \<and> sort_certs vfy this fuel = Some (Inr chain)
     \<and> checkPath vfd this chain = Inr ()"
  by (auto simp: verify_def split: if_splits option.splits sum.splits)

lemma verify_Inl:
  "verify vfy vfd this fuel = Some (Inl e) \<Longrightarrow>
     e = VerificationError ''No certificates provided''
     \<or> sort_certs vfy this fuel = Some (Inl e)
     \<or> (\<exists>chain. sort_certs vfy this fuel = Some (Inr chain) \<and> checkPath vfd this chain = Inl e)"
  by (auto simp: verify_def split: if_splits option.splits sum.splits)

lemma localCerts_new:
  "localCerts (newCertificateChainVerifier now opts)
     = dedupeCertificates (opts_trustedCerts opts @ opts_certs opts)"
  by (simp add: newCertificateChainVerifier_def)

lemma trustedCerts_new:
  "trustedCerts (newCertificateChainVerifier now opts) = opts_trustedCerts opts"
  by (simp add: newCertificateChainVerifier_def)

lemma certs_new: "certs (newCertificateChainVerifier now opts) = opts_certs opts"
  by (simp add: newCertificateChainVerifier_def)

text \<open>The shape of every chain that \<open>sort\<close> returns.\<close>

lemma sort_certs_shape:
  assumes "sort_certs vfy this fuel = Some (Inr chain)"
  shows "\<exists>path. chain = last (localCerts this) # path \<and> path \<noteq> []
           \<and> localCerts this \<noteq> []
           \<and> set path \<subseteq> set (localCerts this)
           \<and> (\<exists>c \<in> set path. c \<in> set (trustedCerts this))"
proof -
  from sort_certs_Inr[OF assms] obtain allPaths p ps where
    ne: "localCerts this \<noteq> []"
    and bp: "buildPaths vfy this fuel (last (localCerts this)) = Some (Inr allPaths)"
    and flt: "filter (containsTrusted this) allPaths = p # ps"
    and chain: "chain = last (localCerts this) # foldl shorter p ps"
    by blast
  let ?path = "foldl shorter p ps"
  have "?path \<in> set (filter (containsTrusted this) allPaths)"
    using foldl_shorter_mem[of p ps] flt by simp
  then have mem: "?path \<in> set allPaths" and tr: "containsTrusted this ?path" by simp_all
  have "last (localCerts this) \<in> set (localCerts this)" using ne by simp
  from buildPaths_in_pool[OF this bp] mem
  have good: "?path \<noteq> []" "set ?path \<subseteq> set (localCerts this)" by blast+
  from tr have "\<exists>c \<in> set ?path. c \<in> set (trustedCerts this)"
    by (simp add: containsTrusted_def list_ex_iff)
  with chain good ne show ?thesis by blast
qed


lemma nameChaining_errors: "nameChaining path i = Inl e \<Longrightarrow> e = NameChainMismatch"
proof (induction path i rule: nameChaining.induct)
  case (1 path i)
  show ?case
  proof (cases "i \<ge> 0 \<and> issuer (path ! nat i) = subject (path ! nat (i + 1))")
    case True
    with "1.prems" have "nameChaining path (i - 1) = Inl e"
      by (subst (asm) nameChaining.simps) simp
    with "1.IH" True show ?thesis by simp
  next
    case False
    with "1.prems" show ?thesis
      by (subst (asm) nameChaining.simps) (auto simp: NameChainMismatch_def split: if_splits)
  qed
qed

lemma checkPath_not_too_short:
  "2 \<le> length path \<Longrightarrow> checkPath vfd this path \<noteq> Inl ChainTooShort"
  using nameChaining_errors[of path "int (length path) - 2" ChainTooShort]
  by (auto simp: checkPath_def ChainTooShort_def NameChainMismatch_def)

section \<open>Where the certificates of a chain come from\<close>

text \<open>
  C10. Every certificate of a chain that \<^verbatim>\<open>verifyCertificateChain\<close> returns is an element
  of the deduplicated pool built from \<^verbatim>\<open>trustedCerts\<close> followed by \<^verbatim>\<open>certs\<close>, and so one
  of the caller's own certificates (the same object): issuer discovery and path building
  bring in nothing else.
\<close>

theorem chain_in_pool:
  assumes "verifyCertificateChain vfy vfd now fuel opts = Some (Inr chain)"
  shows "set chain \<subseteq> set (dedupeCertificates (opts_trustedCerts opts @ opts_certs opts))
         \<and> set chain \<subseteq> set (opts_trustedCerts opts) \<union> set (opts_certs opts)"
proof -
  let ?v = "newCertificateChainVerifier now opts"
  from assms have "sort_certs vfy ?v fuel = Some (Inr chain)"
    using verify_Inr by (simp add: verifyCertificateChain_def)
  from sort_certs_shape[OF this] obtain path where
    "chain = last (localCerts ?v) # path" "localCerts ?v \<noteq> []"
    "set path \<subseteq> set (localCerts ?v)"
    by blast
  then have "set chain \<subseteq> set (localCerts ?v)" by auto
  then have a: "set chain \<subseteq> set (dedupeCertificates (opts_trustedCerts opts @ opts_certs opts))"
    by (simp add: localCerts_new)
  moreover have "set (dedupeCertificates (opts_trustedCerts opts @ opts_certs opts))
                 \<subseteq> set (opts_trustedCerts opts) \<union> set (opts_certs opts)"
    using set_keepFirst[of "opts_trustedCerts opts @ opts_certs opts"]
    by (simp add: dedupeCertificates_keepFirst)
  ultimately show ?thesis by blast
qed

theorem chain_in_pool_witness:
  "verifyCertificateChain sigByName alwaysValid 0 4
     \<lparr> opts_trustedCerts = [rootCert], opts_certs = [rootCopy, intCert, leafCert],
       opts_validAt = None \<rparr>
     = Some (Inr [leafCert, intCert, rootCert, rootCert])
   \<and> set [leafCert, intCert, rootCert, rootCert]
       \<subseteq> set (dedupeCertificates ([rootCert] @ [rootCopy, intCert, leafCert]))
   \<and> set [leafCert, intCert, rootCert, rootCert]
       \<subseteq> set [rootCert] \<union> set [rootCopy, intCert, leafCert]"
proof -
  have h: "verifyCertificateChain sigByName alwaysValid 0 4
     \<lparr> opts_trustedCerts = [rootCert], opts_certs = [rootCopy, intCert, leafCert],
       opts_validAt = None \<rparr>
     = Some (Inr [leafCert, intCert, rootCert, rootCert])"
    by code_simp
  from chain_in_pool[OF h] h show ?thesis by simp
qed

section \<open>The two ends of a chain\<close>

text \<open>
  C1, as amended. The first certificate of a returned chain is the last element of the
  deduplicated pool (\<^verbatim>\<open>trustedCerts\<close> followed by \<^verbatim>\<open>certs\<close>), which is a member of the
  trusted or of the supplied certificates; and at least one certificate after the first
  is a member of the trusted certificates.

  As stated the claim fails in both halves: when every supplied certificate equals a
  trusted one, the leaf is the last trusted certificate, which no supplied certificate
  equals; and the filter of \<^verbatim>\<open>sort\<close> keeps a path that contains a trusted certificate
  anywhere, so that a chain may run on past its trusted member and end in an untrusted
  root.
\<close>

theorem chain_endpoints:
  assumes "verifyCertificateChain vfy vfd now fuel opts = Some (Inr chain)"
  shows "\<exists>path. chain = last (dedupeCertificates (opts_trustedCerts opts @ opts_certs opts)) # path
           \<and> hd chain \<in> set (opts_trustedCerts opts) \<union> set (opts_certs opts)
           \<and> (\<exists>c \<in> set path. c \<in> set (opts_trustedCerts opts))"
proof -
  let ?v = "newCertificateChainVerifier now opts"
  let ?pool = "dedupeCertificates (opts_trustedCerts opts @ opts_certs opts)"
  from assms have "sort_certs vfy ?v fuel = Some (Inr chain)"
    using verify_Inr by (simp add: verifyCertificateChain_def)
  from sort_certs_shape[OF this] obtain path where
    chain: "chain = last ?pool # path" and ne: "?pool \<noteq> []"
    and tr: "\<exists>c \<in> set path. c \<in> set (opts_trustedCerts opts)"
    by (auto simp: localCerts_new trustedCerts_new)
  have "last ?pool \<in> set ?pool" using ne by simp
  then have "last ?pool \<in> set (opts_trustedCerts opts) \<union> set (opts_certs opts)"
    using set_keepFirst[of "opts_trustedCerts opts @ opts_certs opts"]
    by (auto simp: dedupeCertificates_keepFirst)
  with chain tr show ?thesis by auto
qed

theorem chain_endpoints_witness:
  "verifyCertificateChain sigByName alwaysValid 0 4
     \<lparr> opts_trustedCerts = [intCert], opts_certs = [rootCert, leafCert],
       opts_validAt = None \<rparr>
     = Some (Inr [leafCert, intCert, rootCert, rootCert])
   \<and> (\<exists>path. [leafCert, intCert, rootCert, rootCert]
               = last (dedupeCertificates ([intCert] @ [rootCert, leafCert])) # path
         \<and> hd [leafCert, intCert, rootCert, rootCert]
               \<in> set [intCert] \<union> set [rootCert, leafCert]
         \<and> (\<exists>c \<in> set path. c \<in> set [intCert]))"
proof -
  have h: "verifyCertificateChain sigByName alwaysValid 0 4
     \<lparr> opts_trustedCerts = [intCert], opts_certs = [rootCert, leafCert],
       opts_validAt = None \<rparr>
     = Some (Inr [leafCert, intCert, rootCert, rootCert])"
    by code_simp
  from chain_endpoints[OF h] h show ?thesis by simp
qed

theorem chain_endpoints_counterexample:
  "verifyCertificateChain sigByName alwaysValid 0 4
     \<lparr> opts_trustedCerts = [rootCert, intCert], opts_certs = [rootCopy],
       opts_validAt = None \<rparr>
     = Some (Inr [intCert, rootCert, rootCert])
   \<and> \<not> list_ex (equals intCert) [rootCopy]
   \<and> verifyCertificateChain sigByName alwaysValid 0 4
     \<lparr> opts_trustedCerts = [intCert], opts_certs = [rootCert, leafCert],
       opts_validAt = None \<rparr>
     = Some (Inr [leafCert, intCert, rootCert, rootCert])
   \<and> \<not> list_ex (equals rootCert) [intCert]"
  by code_simp

section \<open>A single self-signed, trusted certificate\<close>

text \<open>
  The length test of \<^verbatim>\<open>checkPath\<close> is dead code behind \<^verbatim>\<open>verify\<close>: \<^verbatim>\<open>sort\<close> puts the
  leaf in front of a path that is never empty, and for a self-signed leaf the base case of
  \<^verbatim>\<open>buildPaths\<close> makes that path the leaf itself. So the test never sees the chain of one
  certificate it is written for.
\<close>

lemma checkPath_length_guard_unreachable:
  "verifyCertificateChain vfy vfd now fuel opts \<noteq> Some (Inl ChainTooShort)
   \<and> (verifyCertificateChain vfy vfd now fuel opts = Some (Inr chain) \<longrightarrow> 2 \<le> length chain)"
proof -
  let ?v = "newCertificateChainVerifier now opts"
  have len: "2 \<le> length ch" if "sort_certs vfy ?v fuel = Some (Inr ch)" for ch
  proof -
    from sort_certs_shape[OF that] obtain path where
      "ch = last (localCerts ?v) # path" "path \<noteq> []" by blast
    then show ?thesis by (cases path) simp_all
  qed
  have a: "verify vfy vfd ?v fuel \<noteq> Some (Inl ChainTooShort)"
  proof
    assume e: "verify vfy vfd ?v fuel = Some (Inl ChainTooShort)"
    then have cne: "certs ?v \<noteq> []"
      by (auto simp: verify_def ChainTooShort_def split: if_splits)
    then have pne: "localCerts ?v \<noteq> []"
      by (simp add: newCertificateChainVerifier_def dedupeCertificates_keepFirst
            keepFirst_Nil_iff)
    from verify_Inl[OF e] consider
        "ChainTooShort = VerificationError ''No certificates provided''"
      | "sort_certs vfy ?v fuel = Some (Inl ChainTooShort)"
      | ch where "sort_certs vfy ?v fuel = Some (Inr ch)"
          "checkPath vfd ?v ch = Inl ChainTooShort"
      by blast
    then show False
    proof cases
      case 1
      then show False by (simp add: ChainTooShort_def)
    next
      case 2
      from sort_certs_errors[OF 2 pne] show False by (simp add: ChainTooShort_def)
    next
      case 3
      from checkPath_not_too_short[OF len[OF 3(1)]] 3(2) show False by simp
    qed
  qed
  have b: "2 \<le> length chain" if "verify vfy vfd ?v fuel = Some (Inr chain)"
    using len verify_Inr[OF that] by blast
  from a b show ?thesis by (simp add: verifyCertificateChain_def)
qed

text \<open>
  C2. The claim: when the only supplied certificate is self-signed, verifies itself and
  is trusted, \<^verbatim>\<open>verifyCertificateChain\<close> fails with the chain-too-short error, a result of
  a single certificate never being accepted. The code does otherwise at that input: it
  returns the chain \<open>[rootCert, rootCert]\<close>, the one certificate twice, which passes the
  length test of \<^verbatim>\<open>checkPath\<close> that is there to reject it.
\<close>

theorem single_trusted_root_accepted:
  "opts_certs \<lparr> opts_trustedCerts = [rootCert], opts_certs = [rootCert],
                opts_validAt = None \<rparr> = [rootCert]
   \<and> subject rootCert = issuer rootCert
   \<and> sigByName (certBody.truncate rootCert) None = Returns True
   \<and> rootCert \<in> set [rootCert]
   \<and> verifyCertificateChain sigByName alwaysValid 0 3
        \<lparr> opts_trustedCerts = [rootCert], opts_certs = [rootCert], opts_validAt = None \<rparr>
      = Some (Inr [rootCert, rootCert])
   \<and> remdups [rootCert, rootCert] = [rootCert]
   \<and> checkPath alwaysValid
        (newCertificateChainVerifier 0
           \<lparr> opts_trustedCerts = [rootCert], opts_certs = [rootCert], opts_validAt = None \<rparr>)
        [rootCert]
      = Inl ChainTooShort"
  by code_simp

section \<open>The empty input\<close>

text \<open>
  C6. When the supplied list \<^verbatim>\<open>certs\<close> is empty, \<^verbatim>\<open>verifyCertificateChain\<close> fails with
  the error \<^verbatim>\<open>No certificates provided\<close>, whatever the trusted certificates are. No path
  search runs before that: the result does not depend on the signature check, nor on the
  depth allowed to the search (it is the same with none at all).
\<close>

theorem verify_no_certificates:
  assumes "opts_certs opts = []"
  shows "verifyCertificateChain vfy vfd now fuel opts
         = Some (Inl (VerificationError ''No certificates provided''))"
  using assms
  by (simp add: verifyCertificateChain_def verify_def newCertificateChainVerifier_def)

theorem verify_no_certificates_witness:
  "opts_certs \<lparr> opts_trustedCerts = [rootCert, intCert], opts_certs = [],
                opts_validAt = None \<rparr> = []
   \<and> verifyCertificateChain sigByNameOrThrow alwaysValid 0 0
        \<lparr> opts_trustedCerts = [rootCert, intCert], opts_certs = [], opts_validAt = None \<rparr>
      = Some (Inl (VerificationError ''No certificates provided''))"
proof -
  have h: "opts_certs \<lparr> opts_trustedCerts = [rootCert, intCert], opts_certs = [],
                        opts_validAt = None \<rparr> = []"
    by simp
  from verify_no_certificates[OF h] h show ?thesis by simp
qed

section \<open>Candidate issuers of a certificate with an authority key identifier\<close>

text \<open>
  C3, as amended. Let \<open>c\<close> carry an authority key identifier \<open>k\<close>, and let \<open>c\<close> not be
  its own issuer by the self-signed test. Then the issuers found for \<open>c\<close> are, in pool
  order, the pool members that verify \<open>c\<close> and that either have a subject key identifier
  equal to \<open>k\<close>, or have no subject key identifier and a subject equal to the issuer of
  \<open>c\<close>. The name-based fallback is suppressed only for pool members that carry a subject
  key identifier.

  As stated the claim fails: a pool member without a subject key identifier is matched
  by name and is a candidate issuer of such a \<open>c\<close>.
\<close>

theorem findIssuer_keyIdentifier:
  assumes "extAuthorityKeyID c = Some (Some k)"
    and "subject c \<noteq> issuer c \<or> vfy (certBody.truncate c) None = Returns False"
  shows "findIssuer vfy this c =
           Inr (filter (\<lambda>p. (case extSubjectKeyID p of
                                Some s \<Rightarrow> s = k
                              | None \<Rightarrow> subject p = issuer c)
                            \<and> verifiesWith vfy c p)
                  (localCerts this))"
proof -
  have m: "issuerMatch (Some k) c =
           (\<lambda>p. case extSubjectKeyID p of Some s \<Rightarrow> s = k | None \<Rightarrow> subject p = issuer c)"
    by (auto simp: issuerMatch_def fun_eq_iff split: option.splits)
  have "findIssuer vfy this c = Inr (matchIssuers vfy this c)"
    using assms(2) by (auto simp: findIssuer_def)
  then show ?thesis
    using assms(1) by (simp add: matchIssuers_filter m conj_commute)
qed

theorem findIssuer_keyIdentifier_witness:
  "extAuthorityKeyID akiLeaf = Some (Some ''key-1'')
   \<and> subject akiLeaf \<noteq> issuer akiLeaf
   \<and> findIssuer sigByName
        (newCertificateChainVerifier 0
           \<lparr> opts_trustedCerts = [caNoSki, caSki, caOtherSki], opts_certs = [akiLeaf],
             opts_validAt = None \<rparr>) akiLeaf
      = Inr [caNoSki, caSki]"
proof -
  let ?v = "newCertificateChainVerifier 0
           \<lparr> opts_trustedCerts = [caNoSki, caSki, caOtherSki], opts_certs = [akiLeaf],
             opts_validAt = None \<rparr>"
  have h1: "extAuthorityKeyID akiLeaf = Some (Some ''key-1'')" by code_simp
  have h0: "subject akiLeaf \<noteq> issuer akiLeaf" by code_simp
  then have h2: "subject akiLeaf \<noteq> issuer akiLeaf
        \<or> sigByName (certBody.truncate akiLeaf) None = Returns False" by (rule disjI1)
  have e: "filter (\<lambda>p. (case extSubjectKeyID p of
                                Some s \<Rightarrow> s = ''key-1''
                              | None \<Rightarrow> subject p = issuer akiLeaf)
                            \<and> verifiesWith sigByName akiLeaf p)
                  (localCerts ?v) = [caNoSki, caSki]"
    by code_simp
  from findIssuer_keyIdentifier[of akiLeaf "''key-1''" sigByName ?v] h0 h1 h2 e
  show ?thesis by simp
qed

theorem findIssuer_keyIdentifier_counterexample:
  "extAuthorityKeyID akiLeaf = Some (Some ''key-1'')
   \<and> extSubjectKeyID caNoSki = None
   \<and> findIssuer sigByName
        (newCertificateChainVerifier 0
           \<lparr> opts_trustedCerts = [caNoSki], opts_certs = [akiLeaf], opts_validAt = None \<rparr>)
        akiLeaf
      = Inr [caNoSki]
   \<and> verifyCertificateChain sigByName alwaysValid 0 3
        \<lparr> opts_trustedCerts = [caNoSki], opts_certs = [akiLeaf], opts_validAt = None \<rparr>
      = Some (Inr [akiLeaf, caNoSki, caNoSki])"
  by code_simp

section \<open>The choice among the paths\<close>

lemma foldl_shorter_last_min:
  "\<exists>xs ys. p # ps = xs @ foldl shorter p ps # ys
     \<and> (\<forall>r \<in> set xs. length (foldl shorter p ps) \<le> length r)
     \<and> (\<forall>r \<in> set ys. length (foldl shorter p ps) < length r)"
proof (induction ps rule: rev_induct)
  case Nil
  show ?case by (intro exI[of _ "[]"]) simp
next
  case (snoc q qs)
  let ?m = "foldl shorter p qs"
  from snoc.IH obtain xs ys where
    split: "p # qs = xs @ ?m # ys"
    and le: "\<forall>r \<in> set xs. length ?m \<le> length r"
    and lt: "\<forall>r \<in> set ys. length ?m < length r"
    by blast
  show ?case
  proof (cases "length ?m < length q")
    case True
    then have res: "foldl shorter p (qs @ [q]) = ?m" by (simp add: shorter_def)
    have "p # qs @ [q] = xs @ ?m # (ys @ [q])" using split by simp
    moreover have "\<forall>r \<in> set (ys @ [q]). length ?m < length r" using lt True by simp
    ultimately show ?thesis unfolding res using le
      by (intro exI[of _ xs] exI[of _ "ys @ [q]"]) simp
  next
    case False
    then have res: "foldl shorter p (qs @ [q]) = q" by (simp add: shorter_def)
    have all: "\<forall>r \<in> set (p # qs). length q \<le> length r"
    proof
      fix r assume "r \<in> set (p # qs)"
      then have "r \<in> set xs \<or> r = ?m \<or> r \<in> set ys" unfolding split by auto
      then have "length ?m \<le> length r" using le lt by auto
      with False show "length q \<le> length r" by simp
    qed
    have "p # qs @ [q] = (p # qs) @ q # []" by simp
    moreover have "\<forall>r \<in> set ([]::x509Certificate list list). length q < length r" by simp
    ultimately show ?thesis unfolding res using all
      by (intro exI[of _ "p # qs"] exI[of _ "[]"]) simp
  qed
qed

text \<open>
  C5. The chain that \<^verbatim>\<open>verifyCertificateChain\<close> returns is the leaf followed by one of the
  discovered issuer-side paths that contain a trusted certificate, and no such path has
  fewer certificates. Ties are settled by the order of discovery: every path discovered
  after the chosen one is strictly longer (of several shortest paths the last is taken).
  The witness has two alternative paths of lengths 2 and 3.
\<close>

theorem shortest_trusted_path:
  assumes "verifyCertificateChain vfy vfd now fuel opts = Some (Inr chain)"
  shows "\<exists>allPaths before path after.
           buildPaths vfy (newCertificateChainVerifier now opts) fuel (hd chain)
             = Some (Inr allPaths)
           \<and> filter (containsTrusted (newCertificateChainVerifier now opts)) allPaths
               = before @ path # after
           \<and> chain = hd chain # path
           \<and> (\<forall>q \<in> set before. length path \<le> length q)
           \<and> (\<forall>q \<in> set after. length path < length q)"
proof -
  let ?v = "newCertificateChainVerifier now opts"
  from assms have "sort_certs vfy ?v fuel = Some (Inr chain)"
    using verify_Inr by (simp add: verifyCertificateChain_def)
  from sort_certs_Inr[OF this] obtain allPaths p ps where
    bp: "buildPaths vfy ?v fuel (last (localCerts ?v)) = Some (Inr allPaths)"
    and flt: "filter (containsTrusted ?v) allPaths = p # ps"
    and chain: "chain = last (localCerts ?v) # foldl shorter p ps"
    by blast
  from foldl_shorter_last_min[of p ps] obtain xs ys where
    "p # ps = xs @ foldl shorter p ps # ys"
    "\<forall>r \<in> set xs. length (foldl shorter p ps) \<le> length r"
    "\<forall>r \<in> set ys. length (foldl shorter p ps) < length r"
    by blast
  with bp flt chain show ?thesis by auto
qed

theorem shortest_trusted_path_witness:
  "verifyCertificateChain sigByName alwaysValid 0 4
     \<lparr> opts_trustedCerts = [rootCert, caNoSki], opts_certs = [caCross, caLeaf],
       opts_validAt = None \<rparr>
     = Some (Inr [caLeaf, caNoSki, caNoSki])
   \<and> buildPaths sigByName
        (newCertificateChainVerifier 0
           \<lparr> opts_trustedCerts = [rootCert, caNoSki], opts_certs = [caCross, caLeaf],
             opts_validAt = None \<rparr>) 4 caLeaf
      = Some (Inr [[caNoSki, caNoSki], [caCross, rootCert, rootCert]])
   \<and> filter (containsTrusted
        (newCertificateChainVerifier 0
           \<lparr> opts_trustedCerts = [rootCert, caNoSki], opts_certs = [caCross, caLeaf],
             opts_validAt = None \<rparr>))
        [[caNoSki, caNoSki], [caCross, rootCert, rootCert]]
      = [[caNoSki, caNoSki], [caCross, rootCert, rootCert]]
   \<and> length [caNoSki, caNoSki] \<le> length [caCross, rootCert, rootCert]"
proof -
  let ?v = "newCertificateChainVerifier 0
           \<lparr> opts_trustedCerts = [rootCert, caNoSki], opts_certs = [caCross, caLeaf],
             opts_validAt = None \<rparr>"
  let ?short = "[caNoSki, caNoSki]"
  let ?long = "[caCross, rootCert, rootCert]"
  have h: "verifyCertificateChain sigByName alwaysValid 0 4
     \<lparr> opts_trustedCerts = [rootCert, caNoSki], opts_certs = [caCross, caLeaf],
       opts_validAt = None \<rparr>
     = Some (Inr [caLeaf, caNoSki, caNoSki])"
    by code_simp
  have b: "buildPaths sigByName ?v 4 caLeaf = Some (Inr [?short, ?long])"
    by code_simp
  have f: "filter (containsTrusted ?v) [?short, ?long] = [?short, ?long]"
    by code_simp
  from shortest_trusted_path[OF h] obtain allPaths before path after where
    bp: "buildPaths sigByName ?v 4 (hd [caLeaf, caNoSki, caNoSki]) = Some (Inr allPaths)"
    and fl: "filter (containsTrusted ?v) allPaths = before @ path # after"
    and ch: "[caLeaf, caNoSki, caNoSki] = hd [caLeaf, caNoSki, caNoSki] # path"
    and le: "\<forall>q \<in> set before. length path \<le> length q"
    and lt: "\<forall>q \<in> set after. length path < length q"
    by blast
  from bp b have ap: "allPaths = [?short, ?long]" by simp
  from ch have p: "path = ?short" by simp
  have e: "before @ path # after = [?short, ?long]" using fl f by (simp add: ap)
  have "?long \<in> set (before @ path # after)" unfolding e by simp
  then have "?long \<in> set before \<or> ?long = path \<or> ?long \<in> set after" by auto
  then have "length path \<le> length ?long" using le lt by auto
  then have "length ?short \<le> length ?long" unfolding p .
  with h b f show ?thesis by blast
qed

section \<open>The order of the rules of checkPath\<close>

lemma nameChaining_iff:
  "nameChaining path i =
     (if \<exists>k. 0 \<le> k \<and> k \<le> i \<and> issuer (path ! nat k) \<noteq> subject (path ! nat (k + 1))
      then Inl NameChainMismatch else Inr ())"
proof (induction path i rule: nameChaining.induct)
  case (1 path i)
  show ?case
  proof (cases "i \<ge> 0")
    case False
    then show ?thesis by (subst nameChaining.simps) auto
  next
    case nonneg: True
    show ?thesis
    proof (cases "issuer (path ! nat i) \<noteq> subject (path ! nat (i + 1))")
      case True
      with nonneg have "\<exists>k. 0 \<le> k \<and> k \<le> i
          \<and> issuer (path ! nat k) \<noteq> subject (path ! nat (k + 1))"
        by (intro exI[of _ i]) simp
      with nonneg True show ?thesis
        by (subst nameChaining.simps) (simp add: NameChainMismatch_def)
    next
      case False
      have eq: "(\<exists>k. 0 \<le> k \<and> k \<le> i
                   \<and> issuer (path ! nat k) \<noteq> subject (path ! nat (k + 1)))
              \<longleftrightarrow> (\<exists>k. 0 \<le> k \<and> k \<le> i - 1
                   \<and> issuer (path ! nat k) \<noteq> subject (path ! nat (k + 1)))"
      proof
        assume "\<exists>k. 0 \<le> k \<and> k \<le> i
                   \<and> issuer (path ! nat k) \<noteq> subject (path ! nat (k + 1))"
        then obtain k where k: "0 \<le> k" "k \<le> i"
          "issuer (path ! nat k) \<noteq> subject (path ! nat (k + 1))" by blast
        with False have "k \<noteq> i" by auto
        with k show "\<exists>k. 0 \<le> k \<and> k \<le> i - 1
                   \<and> issuer (path ! nat k) \<noteq> subject (path ! nat (k + 1))"
          by (intro exI[of _ k]) simp
      next
        assume "\<exists>k. 0 \<le> k \<and> k \<le> i - 1
                   \<and> issuer (path ! nat k) \<noteq> subject (path ! nat (k + 1))"
        then obtain k where k: "0 \<le> k" "k \<le> i - 1"
          "issuer (path ! nat k) \<noteq> subject (path ! nat (k + 1))" by blast
        then show "\<exists>k. 0 \<le> k \<and> k \<le> i
                   \<and> issuer (path ! nat k) \<noteq> subject (path ! nat (k + 1))"
          by (intro exI[of _ k]) simp
      qed
      have "nameChaining path i = nameChaining path (i - 1)"
        using nonneg False by (subst nameChaining.simps) simp
      also have "\<dots> = (if \<exists>k. 0 \<le> k \<and> k \<le> i - 1
                   \<and> issuer (path ! nat k) \<noteq> subject (path ! nat (k + 1))
             then Inl NameChainMismatch else Inr ())"
        using "1.IH"[OF nonneg] False by simp
      finally show ?thesis unfolding eq .
    qed
  qed
qed

lemma adjacent_pairs:
  "(\<exists>k::int. 0 \<le> k \<and> k \<le> int (length path) - 2
       \<and> issuer (path ! nat k) \<noteq> subject (path ! nat (k + 1)))
   \<longleftrightarrow> (\<exists>i. Suc i < length path \<and> issuer (path ! i) \<noteq> subject (path ! Suc i))"
proof
  assume "\<exists>k::int. 0 \<le> k \<and> k \<le> int (length path) - 2
       \<and> issuer (path ! nat k) \<noteq> subject (path ! nat (k + 1))"
  then obtain k :: int where k: "0 \<le> k" "k \<le> int (length path) - 2"
    "issuer (path ! nat k) \<noteq> subject (path ! nat (k + 1))" by blast
  have "nat (k + 1) = Suc (nat k)" using k(1) by simp
  with k show "\<exists>i. Suc i < length path \<and> issuer (path ! i) \<noteq> subject (path ! Suc i)"
    by (intro exI[of _ "nat k"]) auto
next
  assume "\<exists>i. Suc i < length path \<and> issuer (path ! i) \<noteq> subject (path ! Suc i)"
  then obtain i where i: "Suc i < length path"
    "issuer (path ! i) \<noteq> subject (path ! Suc i)" by blast
  have "nat (int i + 1) = Suc i" by simp
  with i show "\<exists>k::int. 0 \<le> k \<and> k \<le> int (length path) - 2
       \<and> issuer (path ! nat k) \<noteq> subject (path ! nat (k + 1))"
    by (intro exI[of _ "int i"]) auto
qed

lemma checkPath_rules:
  "checkPath vfd this path =
     (if length path < 2 then Inl ChainTooShort
      else if \<exists>c \<in> set path. \<not> vfd (certBody.truncate c) (validAt this) then
        Inl ExpiredOrNotYetValid
      else if \<exists>c \<in> set (tl path). \<not> isCA c then Inl NotCA
      else if \<exists>i. Suc i < length path \<and> issuer (path ! i) \<noteq> subject (path ! Suc i) then
        Inl NameChainMismatch
      else Inr ())"
  unfolding adjacent_pairs[symmetric]
  by (simp add: checkPath_def nameChaining_iff list_all_iff drop_Suc ChainTooShort_def
        ExpiredOrNotYetValid_def NotCA_def)

text \<open>
  C7. \<^verbatim>\<open>checkPath\<close> applies its rules in a fixed order: the path has at least two
  certificates; every certificate is valid at \<^verbatim>\<open>validAt\<close>; every certificate except the
  leaf is a CA; the issuer of every certificate is the subject of the next one. The error
  is that of the first rule, in this order, that the path violates. An error of
  \<^verbatim>\<open>checkPath\<close> on the path built by \<^verbatim>\<open>sort\<close> is the outcome of \<^verbatim>\<open>verify\<close>: no path is
  returned. In the witness the path is out of date and its second certificate is not a
  CA; the error is that of the validity rule.
\<close>

theorem checkPath_order:
  "checkPath vfd this path =
     (if length path < 2 then Inl ChainTooShort
      else if \<exists>c \<in> set path. \<not> vfd (certBody.truncate c) (validAt this) then
        Inl ExpiredOrNotYetValid
      else if \<exists>c \<in> set (tl path). \<not> isCA c then Inl NotCA
      else if \<exists>i. Suc i < length path \<and> issuer (path ! i) \<noteq> subject (path ! Suc i) then
        Inl NameChainMismatch
      else Inr ())
   \<and> (certs this \<noteq> [] \<longrightarrow> sort_certs vfy this fuel = Some (Inr path) \<longrightarrow>
        checkPath vfd this path = Inl e \<longrightarrow> verify vfy vfd this fuel = Some (Inl e))"
proof
  show "checkPath vfd this path =
     (if length path < 2 then Inl ChainTooShort
      else if \<exists>c \<in> set path. \<not> vfd (certBody.truncate c) (validAt this) then
        Inl ExpiredOrNotYetValid
      else if \<exists>c \<in> set (tl path). \<not> isCA c then Inl NotCA
      else if \<exists>i. Suc i < length path \<and> issuer (path ! i) \<noteq> subject (path ! Suc i) then
        Inl NameChainMismatch
      else Inr ())"
    by (rule checkPath_rules)
next
  show "certs this \<noteq> [] \<longrightarrow> sort_certs vfy this fuel = Some (Inr path) \<longrightarrow>
        checkPath vfd this path = Inl e \<longrightarrow> verify vfy vfd this fuel = Some (Inl e)"
    by (simp add: verify_def)
qed

theorem checkPath_order_witness:
  "certs (newCertificateChainVerifier 2031
        \<lparr> opts_trustedCerts = [rootCert], opts_certs = [intNonCA, leafCert],
          opts_validAt = None \<rparr>) \<noteq> []
   \<and> sort_certs sigByName (newCertificateChainVerifier 2031
        \<lparr> opts_trustedCerts = [rootCert], opts_certs = [intNonCA, leafCert],
          opts_validAt = None \<rparr>) 4
      = Some (Inr [leafCert, intNonCA, rootCert, rootCert])
   \<and> \<not> isCA intNonCA
   \<and> checkPath validUntil2030 (newCertificateChainVerifier 2031
        \<lparr> opts_trustedCerts = [rootCert], opts_certs = [intNonCA, leafCert],
          opts_validAt = None \<rparr>) [leafCert, intNonCA, rootCert, rootCert]
      = Inl ExpiredOrNotYetValid
   \<and> verify sigByName validUntil2030 (newCertificateChainVerifier 2031
        \<lparr> opts_trustedCerts = [rootCert], opts_certs = [intNonCA, leafCert],
          opts_validAt = None \<rparr>) 4
      = Some (Inl ExpiredOrNotYetValid)"
proof -
  let ?v = "newCertificateChainVerifier 2031
        \<lparr> opts_trustedCerts = [rootCert], opts_certs = [intNonCA, leafCert],
          opts_validAt = None \<rparr>"
  let ?p = "[leafCert, intNonCA, rootCert, rootCert]"
  have h1: "certs ?v \<noteq> []" by code_simp
  have h2: "sort_certs sigByName ?v 4 = Some (Inr ?p)" by code_simp
  have h3: "checkPath validUntil2030 ?v ?p = Inl ExpiredOrNotYetValid" by code_simp
  have h4: "\<not> isCA intNonCA" by code_simp
  from checkPath_order[of validUntil2030 ?v ?p sigByName 4 ExpiredOrNotYetValid] h1 h2 h3
  have "verify sigByName validUntil2030 ?v 4 = Some (Inl ExpiredOrNotYetValid)" by blast
  with h1 h2 h3 h4 show ?thesis by blast
qed

lemma checkPath_errors:
  "checkPath vfd this path = Inl e \<Longrightarrow>
     e = ChainTooShort \<or> e = ExpiredOrNotYetValid \<or> e = NotCA \<or> e = NameChainMismatch"
  unfolding checkPath_rules by (auto split: if_splits)

text \<open>
  The property access on \<^verbatim>\<open>undefined\<close> is out of reach of the entry point: a call with a
  non-empty \<^verbatim>\<open>certs\<close> has a non-empty pool.
\<close>

lemma verifyCertificateChain_no_TypeError:
  "verifyCertificateChain vfy vfd now fuel opts \<noteq> Some (Inl TypeError)"
proof
  let ?v = "newCertificateChainVerifier now opts"
  assume "verifyCertificateChain vfy vfd now fuel opts = Some (Inl TypeError)"
  then have e: "verify vfy vfd ?v fuel = Some (Inl TypeError)"
    by (simp add: verifyCertificateChain_def)
  then have "certs ?v \<noteq> []" by (auto simp: verify_def split: if_splits)
  then have pne: "localCerts ?v \<noteq> []"
    by (simp add: newCertificateChainVerifier_def dedupeCertificates_keepFirst
          keepFirst_Nil_iff)
  from verify_Inl[OF e] consider
      "TypeError = VerificationError ''No certificates provided''"
    | "sort_certs vfy ?v fuel = Some (Inl TypeError)"
    | ch where "checkPath vfd ?v ch = Inl TypeError"
    by blast
  then show False
  proof cases
    case 1
    then show False by simp
  next
    case 2
    from sort_certs_errors[OF 2 pne] show False by simp
  next
    case 3
    from checkPath_errors[OF 3] show False
      by (simp add: ChainTooShort_def ExpiredOrNotYetValid_def NotCA_def NameChainMismatch_def)
  qed
qed

section \<open>Exceptions of the signature check\<close>

lemma verify_exception_in_filter_caught:
  "vfy (certBody.truncate c) (Some (certBody.truncate i)) = Throws \<Longrightarrow>
     i \<notin> set (matchIssuers vfy this c)"
  by (simp add: matchIssuers_filter verifiesWith_def)

text \<open>
  C8. The claim is that every exception of the signature check during issuer matching
  is caught, and that none leaves \<^verbatim>\<open>verifyCertificateChain\<close>. The filter over the
  candidates does catch (\<open>verify_exception_in_filter_caught\<close>), but the self-signed test
  at the head of \<^verbatim>\<open>findIssuer\<close> calls \<^verbatim>\<open>certificate.verify()\<close> outside any \<^verbatim>\<open>try\<close>. For
  a self-issued leaf whose own key cannot be loaded the exception leaves the call, although
  the trusted root would verify the leaf.
\<close>

theorem self_check_exception_propagates:
  "subject badRoot = issuer badRoot
   \<and> sigByNameOrThrow (certBody.truncate badRoot) None = Throws
   \<and> verifyCertificateChain sigByNameOrThrow alwaysValid 0 3
        \<lparr> opts_trustedCerts = [rootCert], opts_certs = [badRoot], opts_validAt = None \<rparr>
      = Some (Inl SignatureException)"
  by code_simp

section \<open>Duplicates of trusted certificates\<close>

lemma findIssuer_pool:
  "localCerts a = localCerts b \<Longrightarrow> findIssuer vfy a c = findIssuer vfy b c"
proof -
  assume "localCerts a = localCerts b"
  then have m: "matchIssuers vfy a c = matchIssuers vfy b c" by (simp add: matchIssuers_def)
  show ?thesis unfolding findIssuer_def m by (rule refl)
qed

lemma buildPaths_pool:
  "localCerts a = localCerts b \<Longrightarrow> buildPaths vfy a n c = buildPaths vfy b n c"
  and buildPathsLoop_pool:
  "localCerts a = localCerts b \<Longrightarrow>
     buildPathsLoop vfy a n c iss acc = buildPathsLoop vfy b n c iss acc"
proof (induction vfy a n c and vfy a n c iss acc rule: buildPaths_buildPathsLoop.induct)
  case (1 vfy this certificate)
  show ?case by simp
next
  case (2 vfy this n certificate)
  have fi: "findIssuer vfy b certificate = findIssuer vfy this certificate"
    by (rule findIssuer_pool[OF "2.prems", symmetric])
  show ?case
  proof (cases "findIssuer vfy this certificate")
    case (Inl e)
    then show ?thesis by (simp add: fi)
  next
    case (Inr issuers)
    show ?thesis
    proof (cases "length issuers = 0")
      case True
      with Inr show ?thesis by (simp add: fi)
    next
      case False
      from "2.IH"[OF Inr False "2.prems"] Inr False show ?thesis by (simp add: fi)
    qed
  qed
next
  case (3 vfy this n certificate paths)
  show ?case by simp
next
  case (4 vfy this n certificate iss rest acc)
  show ?case
  proof (cases "equals iss certificate")
    case True
    from "4.IH"(1)[OF True "4.prems"] True show ?thesis by simp
  next
    case False
    have sub: "buildPaths vfy b n iss = buildPaths vfy this n iss"
      by (rule "4.IH"(2)[OF False "4.prems", symmetric])
    show ?thesis
    proof (cases "buildPaths vfy this n iss")
      case None
      with False show ?thesis by (simp add: sub)
    next
      case (Some r)
      show ?thesis
      proof (cases r)
        case (Inl e)
        with Some False show ?thesis by (simp add: sub)
      next
        case (Inr subPaths)
        from "4.IH"(3)[OF False _ refl "4.prems"] Some Inr False show ?thesis
          by (simp add: sub)
      qed
    qed
  qed
qed

lemma sort_certs_pool:
  assumes "localCerts a = localCerts b" and "trustedCerts a = trustedCerts b"
  shows "sort_certs vfy a fuel = sort_certs vfy b fuel"
proof -
  have ct: "containsTrusted a = containsTrusted b"
    using assms(2) by (simp add: containsTrusted_def fun_eq_iff)
  have bp: "buildPaths vfy a fuel = buildPaths vfy b fuel"
    using buildPaths_pool[OF assms(1), of vfy fuel] by (simp add: fun_eq_iff)
  show ?thesis unfolding sort_certs_def ct bp assms(1) by (rule refl)
qed

lemma checkPath_validAt:
  "validAt a = validAt b \<Longrightarrow> checkPath vfd a path = checkPath vfd b path"
  by (simp add: checkPath_def)

lemma verify_pool:
  assumes "localCerts a = localCerts b" and "trustedCerts a = trustedCerts b"
    and "validAt a = validAt b" and "certs a = [] \<longleftrightarrow> certs b = []"
  shows "verify vfy vfd a fuel = verify vfy vfd b fuel"
proof -
  have sc: "sort_certs vfy a fuel = sort_certs vfy b fuel"
    by (rule sort_certs_pool[OF assms(1,2)])
  have cp: "checkPath vfd a = checkPath vfd b"
    using checkPath_validAt[OF assms(3), of vfd] by (simp add: fun_eq_iff)
  have ln: "(length (certs a) = 0) = (length (certs b) = 0)"
    using assms(4) by simp
  show ?thesis unfolding verify_def sc cp ln by (rule refl)
qed

text \<open>
  C4, as amended. When the supplied list is not empty, adding to it, at any position, a
  certificate that equals a trusted certificate changes neither the deduplicated pool
  nor the outcome of \<^verbatim>\<open>verifyCertificateChain\<close>.

  As stated the claim fails at its edges: with an empty supplied list the added
  certificate turns the error \<^verbatim>\<open>No certificates provided\<close> into a search; and in the other
  direction, adding to the trusted list a certificate that equals a supplied one makes
  that certificate trusted.
\<close>

theorem duplicate_of_trusted_ignored:
  assumes "\<exists>t \<in> set trusted. equals t d" and "pre @ post \<noteq> []"
  shows "dedupeCertificates (trusted @ pre @ d # post) = dedupeCertificates (trusted @ pre @ post)
         \<and> verifyCertificateChain vfy vfd now fuel
             \<lparr> opts_trustedCerts = trusted, opts_certs = pre @ d # post, opts_validAt = at \<rparr>
           = verifyCertificateChain vfy vfd now fuel
             \<lparr> opts_trustedCerts = trusted, opts_certs = pre @ post, opts_validAt = at \<rparr>"
proof -
  from assms(1) have "\<exists>t \<in> set (trusted @ pre). equals t d" by auto
  from keepFirst_drop_duplicate[OF this, of post]
  have pool: "dedupeCertificates (trusted @ pre @ d # post)
              = dedupeCertificates (trusted @ pre @ post)"
    by (simp add: dedupeCertificates_keepFirst)
  let ?a = "newCertificateChainVerifier now
              \<lparr> opts_trustedCerts = trusted, opts_certs = pre @ d # post, opts_validAt = at \<rparr>"
  let ?b = "newCertificateChainVerifier now
              \<lparr> opts_trustedCerts = trusted, opts_certs = pre @ post, opts_validAt = at \<rparr>"
  have "verify vfy vfd ?a fuel = verify vfy vfd ?b fuel"
  proof (rule verify_pool)
    show "localCerts ?a = localCerts ?b" using pool by (simp add: localCerts_new)
    show "trustedCerts ?a = trustedCerts ?b" by (simp add: trustedCerts_new)
    show "validAt ?a = validAt ?b" by (simp add: newCertificateChainVerifier_def)
    show "certs ?a = [] \<longleftrightarrow> certs ?b = []" using assms(2) by (simp add: certs_new)
  qed
  with pool show ?thesis by (simp add: verifyCertificateChain_def)
qed

theorem duplicate_of_trusted_ignored_witness:
  "(\<exists>t \<in> set [rootCert]. equals t rootCopy) \<and> [intCert] @ [leafCert] \<noteq> []
   \<and> dedupeCertificates ([rootCert] @ [intCert] @ rootCopy # [leafCert])
       = dedupeCertificates ([rootCert] @ [intCert] @ [leafCert])
   \<and> verifyCertificateChain sigByName alwaysValid 0 4
       \<lparr> opts_trustedCerts = [rootCert], opts_certs = [intCert] @ rootCopy # [leafCert],
         opts_validAt = None \<rparr>
     = verifyCertificateChain sigByName alwaysValid 0 4
       \<lparr> opts_trustedCerts = [rootCert], opts_certs = [intCert] @ [leafCert],
         opts_validAt = None \<rparr>
   \<and> verifyCertificateChain sigByName alwaysValid 0 4
       \<lparr> opts_trustedCerts = [rootCert], opts_certs = [intCert] @ [leafCert],
         opts_validAt = None \<rparr>
     = Some (Inr [leafCert, intCert, rootCert, rootCert])"
proof -
  have h1: "\<exists>t \<in> set [rootCert]. equals t rootCopy" by code_simp
  have h2: "[intCert] @ [leafCert] \<noteq> []" by simp
  have r: "verifyCertificateChain sigByName alwaysValid 0 4
       \<lparr> opts_trustedCerts = [rootCert], opts_certs = [intCert] @ [leafCert],
         opts_validAt = None \<rparr>
     = Some (Inr [leafCert, intCert, rootCert, rootCert])" by code_simp
  from duplicate_of_trusted_ignored[OF h1 h2, of sigByName alwaysValid 0 4 None] h1 h2 r
  show ?thesis by blast
qed

theorem duplicate_counterexample:
  "equals rootCert rootCopy
   \<and> verifyCertificateChain sigByName alwaysValid 0 3
       \<lparr> opts_trustedCerts = [rootCert], opts_certs = [], opts_validAt = None \<rparr>
     = Some (Inl (VerificationError ''No certificates provided''))
   \<and> verifyCertificateChain sigByName alwaysValid 0 3
       \<lparr> opts_trustedCerts = [rootCert], opts_certs = [rootCopy], opts_validAt = None \<rparr>
     = Some (Inr [rootCert, rootCert])
   \<and> verifyCertificateChain sigByName alwaysValid 0 3
       \<lparr> opts_trustedCerts = [], opts_certs = [rootCert], opts_validAt = None \<rparr>
     = Some (Inl (VerificationError ''No trusted certificate path found''))
   \<and> verifyCertificateChain sigByName alwaysValid 0 3
       \<lparr> opts_trustedCerts = [rootCopy], opts_certs = [rootCert], opts_validAt = None \<rparr>
     = Some (Inr [rootCopy, rootCopy])"
  by code_simp

section \<open>The depth of the search\<close>

lemma buildPaths_more_fuel:
  "buildPaths vfy this n c = Some r \<Longrightarrow> buildPaths vfy this (Suc n) c = Some r"
  and buildPathsLoop_more_fuel:
  "buildPathsLoop vfy this n c iss acc = Some r \<Longrightarrow>
     buildPathsLoop vfy this (Suc n) c iss acc = Some r"
proof (induction vfy this n c and vfy this n c iss acc arbitrary: r and r
       rule: buildPaths_buildPathsLoop.induct)
  case (1 vfy this certificate)
  then show ?case by simp
next
  case (2 vfy this n certificate)
  show ?case
  proof (cases "findIssuer vfy this certificate")
    case (Inl e)
    with "2.prems" show ?thesis by simp
  next
    case (Inr issuers)
    show ?thesis
    proof (cases "length issuers = 0")
      case True
      with Inr "2.prems" show ?thesis by simp
    next
      case False
      with Inr "2.prems" have "buildPathsLoop vfy this n certificate issuers [] = Some r"
        by simp
      from "2.IH"[OF Inr False this] Inr False show ?thesis by simp
    qed
  qed
next
  case (3 vfy this n certificate paths)
  then show ?case by simp
next
  case (4 vfy this n certificate iss rest acc)
  show ?case
  proof (cases "equals iss certificate")
    case True
    with "4.prems" have "buildPathsLoop vfy this n certificate rest (acc @ [[certificate]]) = Some r"
      by simp
    from "4.IH"(1)[OF True this] True show ?thesis by simp
  next
    case False
    show ?thesis
    proof (cases "buildPaths vfy this n iss")
      case None
      with False "4.prems" show ?thesis by simp
    next
      case (Some s)
      have up: "buildPaths vfy this (Suc n) iss = Some s"
        by (rule "4.IH"(2)[OF False Some])
      show ?thesis
      proof (cases s)
        case (Inl e)
        with Some False "4.prems" have "r = Inl e" by simp
        with up Inl False show ?thesis by simp
      next
        case (Inr subPaths)
        with Some False "4.prems"
        have "buildPathsLoop vfy this n certificate rest
                (acc @ map (\<lambda>subPath. iss # subPath) subPaths) = Some r"
          by simp
        from "4.IH"(3)[OF False _ refl this] Some Inr
        have "buildPathsLoop vfy this (Suc n) certificate rest
                (acc @ map (\<lambda>subPath. iss # subPath) subPaths) = Some r"
          by simp
        with up Inr False show ?thesis by simp
      qed
    qed
  qed
qed

lemma sort_certs_more_fuel:
  assumes "sort_certs vfy this n = Some r"
  shows "sort_certs vfy this (Suc n) = Some r"
proof (cases "localCerts this = []")
  case True
  with assms show ?thesis by (simp add: sort_certs_def)
next
  case False
  show ?thesis
  proof (cases "buildPaths vfy this n (last (localCerts this))")
    case None
    with assms False show ?thesis by (simp add: sort_certs_leaf)
  next
    case (Some s)
    from buildPaths_more_fuel[OF Some] Some assms False show ?thesis
      by (simp add: sort_certs_leaf)
  qed
qed

lemma verify_more_fuel:
  assumes "verify vfy vfd this n = Some r"
  shows "verify vfy vfd this (Suc n) = Some r"
proof (cases "length (certs this) = 0")
  case True
  with assms show ?thesis by (simp add: verify_def)
next
  case False
  show ?thesis
  proof (cases "sort_certs vfy this n")
    case None
    with assms False show ?thesis by (simp add: verify_def)
  next
    case (Some s)
    from sort_certs_more_fuel[OF Some] Some assms False show ?thesis
      by (simp add: verify_def)
  qed
qed

text \<open>A search that finishes within some depth has the same outcome within any greater one.\<close>

lemma verifyCertificateChain_more_fuel:
  "verifyCertificateChain vfy vfd now fuel opts = Some r \<Longrightarrow>
     verifyCertificateChain vfy vfd now (fuel + k) opts = Some r"
proof (induction k)
  case 0
  then show ?case by simp
next
  case (Suc k)
  then have "verify vfy vfd (newCertificateChainVerifier now opts) (fuel + k) = Some r"
    by (simp add: verifyCertificateChain_def)
  from verify_more_fuel[OF this] show ?case by (simp add: verifyCertificateChain_def)
qed

section \<open>A self-signed, trusted leaf\<close>

text \<open>
  C9, as amended. Let \<^verbatim>\<open>certs\<close> hold exactly one certificate \<open>c\<close> that is self-signed,
  verifies itself, is a CA and is valid at \<^verbatim>\<open>validAt\<close>, and let \<open>c\<close> equal the last
  certificate \<open>t\<close> of the deduplicated trusted list (so when \<^verbatim>\<open>trustedCerts\<close> holds nothing
  but a certificate equal to \<open>c\<close>). Then \<^verbatim>\<open>verifyCertificateChain\<close> returns, for every depth
  of search from one on, the two-element chain \<open>[t, t]\<close>: the same certificate twice, so
  the certificates of a returned chain need not be distinct.

  As stated the claim fails: when \<open>c\<close> equals a trusted certificate that is not the last
  one, \<open>c\<close> is removed from the pool as a duplicate and the last trusted certificate is
  taken for the leaf.
\<close>

theorem self_signed_trusted_leaf:
  assumes "trusted \<noteq> []"
    and "equals (last (dedupeCertificates trusted)) c"
    and "subject c = issuer c"
    and "vfy (certBody.truncate c) None = Returns True"
    and "isCA c"
    and "vfd (certBody.truncate c) (case at of Some d \<Rightarrow> d | None \<Rightarrow> now)"
  shows "verifyCertificateChain vfy vfd now (Suc fuel)
           \<lparr> opts_trustedCerts = trusted, opts_certs = [c], opts_validAt = at \<rparr>
         = Some (Inr [last (dedupeCertificates trusted), last (dedupeCertificates trusted)])"
proof -
  define t where "t = last (dedupeCertificates trusted)"
  let ?opts = "\<lparr> opts_trustedCerts = trusted, opts_certs = [c], opts_validAt = at \<rparr>"
  let ?v = "newCertificateChainVerifier now ?opts"
  have kne: "keepFirst trusted \<noteq> []" using assms(1) by (simp add: keepFirst_Nil_iff)
  have tk: "t = last (keepFirst trusted)" by (simp add: t_def dedupeCertificates_keepFirst)
  then have tin: "t \<in> set trusted" using kne set_keepFirst[of trusted] by auto
  have eq: "equals t c" using assms(2) by (simp add: t_def)
  then have tr: "certBody.truncate t = certBody.truncate c" by (simp add: equals_def)
  have "keepFirst (trusted @ c # []) = keepFirst (trusted @ [])"
    by (rule keepFirst_drop_duplicate) (use tin eq in blast)
  then have pool: "localCerts ?v = keepFirst trusted"
    by (simp add: localCerts_new dedupeCertificates_keepFirst)
  have lf: "localCerts ?v \<noteq> []" "last (localCerts ?v) = t"
    using kne by (simp_all add: pool tk)
  have fi: "findIssuer vfy ?v t = Inr [t]"
    using equals_fields(1,2)[OF eq] assms(3,4) by (simp add: findIssuer_def tr)
  have bp: "buildPaths vfy ?v (Suc fuel) t = Some (Inr [[t]])"
    by (simp add: fi equals_refl)
  have ct: "containsTrusted ?v [t]"
    using tin by (simp add: containsTrusted_def trustedCerts_new)
  have srt: "sort_certs vfy ?v (Suc fuel) = Some (Inr [t, t])"
    using bp ct by (simp add: sort_certs_leaf[OF lf(1)] lf(2))
  have va: "validAt ?v = (case at of Some d \<Rightarrow> d | None \<Rightarrow> now)"
    by (simp add: newCertificateChainVerifier_def)
  have cp: "checkPath vfd ?v [t, t] = Inr ()"
    unfolding checkPath_rules
    using assms(5,6) equals_fields[OF eq] assms(3) by (auto simp: va tr)
  show ?thesis
    unfolding verifyCertificateChain_def verify_def t_def[symmetric]
    by (simp add: certs_new srt cp)
qed

theorem self_signed_trusted_leaf_witness:
  "[intCert, rootCert] \<noteq> []
   \<and> equals (last (dedupeCertificates [intCert, rootCert])) rootCopy
   \<and> subject rootCopy = issuer rootCopy
   \<and> sigByName (certBody.truncate rootCopy) None = Returns True
   \<and> isCA rootCopy
   \<and> validUntil2030 (certBody.truncate rootCopy) (case Some 2026 of Some d \<Rightarrow> d | None \<Rightarrow> 2031)
   \<and> verifyCertificateChain sigByName validUntil2030 2031 (Suc 0)
        \<lparr> opts_trustedCerts = [intCert, rootCert], opts_certs = [rootCopy],
          opts_validAt = Some 2026 \<rparr>
      = Some (Inr [rootCert, rootCert])"
proof -
  have h1: "[intCert, rootCert] \<noteq> []" by simp
  have h2: "equals (last (dedupeCertificates [intCert, rootCert])) rootCopy" by code_simp
  have h3: "subject rootCopy = issuer rootCopy" by code_simp
  have h4: "sigByName (certBody.truncate rootCopy) None = Returns True" by code_simp
  have h5: "isCA rootCopy" by code_simp
  have h6: "validUntil2030 (certBody.truncate rootCopy)
              (case Some 2026 of Some d \<Rightarrow> d | None \<Rightarrow> 2031)" by code_simp
  have l: "last (dedupeCertificates [intCert, rootCert]) = rootCert" by code_simp
  from self_signed_trusted_leaf[where trusted = "[intCert, rootCert]" and c = rootCopy
      and vfy = sigByName and vfd = validUntil2030 and at = "Some 2026" and now = 2031
      and fuel = 0, OF h1 h2 h3 h4 h5 h6] h1 h2 h3 h4 h5 h6
  show ?thesis unfolding l by blast
qed

theorem self_signed_trusted_leaf_counterexample:
  "opts_certs \<lparr> opts_trustedCerts = [rootCert, intCert], opts_certs = [rootCopy],
                opts_validAt = None \<rparr> = [rootCopy]
   \<and> subject rootCopy = issuer rootCopy
   \<and> sigByName (certBody.truncate rootCopy) None = Returns True
   \<and> list_ex (equals rootCopy) [rootCert, intCert]
   \<and> isCA rootCopy
   \<and> alwaysValid (certBody.truncate rootCopy) 0
   \<and> verifyCertificateChain sigByName alwaysValid 0 4
        \<lparr> opts_trustedCerts = [rootCert, intCert], opts_certs = [rootCopy],
          opts_validAt = None \<rparr>
      = Some (Inr [intCert, rootCert, rootCert])"
  by code_simp

end
